theory Spec2Isabelle
  imports Main "HOL-Library.AList" "HOL-Library.Multiset" "HOL-Library.Word"
begin

section \<open>Protocol-buffer messages behind the wrappers\<close>

text \<open>
  \<^verbatim>\<open>jina/types/routing/table.py\<close> wraps two generated message classes,
  \<^verbatim>\<open>jina_pb2.TargetPodProto\<close> and \<^verbatim>\<open>jina_pb2.RoutingTableProto\<close>. The wrappers
  \<^verbatim>\<open>TargetPod\<close> and \<^verbatim>\<open>RoutingTable\<close> keep no state of their own: every
  property reads or writes the message held in \<^verbatim>\<open>_pb_body\<close>.
\<close>

text \<open>
  Modelled from the spec: the message \<^verbatim>\<open>TargetPodProto\<close> (module \<^verbatim>\<open>jina_pb2\<close>)
  is not among the sources. Its fields are those of the Node Descriptor of the data
  model: host, port, the ordered out-edge names and the expected-parts counter. The
  integer fields are Python integers here; the width of their wire types is not given.
\<close>

record target_pod_proto =
  host :: string
  port :: int
  out_edges :: "string list"
  expected_parts :: int

text \<open>
  Modelled from the spec: the message \<^verbatim>\<open>RoutingTableProto\<close> (module \<^verbatim>\<open>jina_pb2\<close>)
  is not among the sources. It holds the map from pod name to node descriptor and the
  name of the active pod. The map is kept as an association list in insertion order,
  since \<^verbatim>\<open>_topological_sort\<close> iterates over its keys; lookups go through
  \<^const>\<open>map_of\<close>, so the first entry of a name is the one that counts.
\<close>

record routing_table_proto =
  pods :: "(string \<times> target_pod_proto) list"
  active_pod :: string

text \<open>
  Modelled from the spec: the freshly constructed messages \<^verbatim>\<open>TargetPodProto()\<close> and
  \<^verbatim>\<open>RoutingTableProto()\<close>: empty strings, zero, no out-edges, no pods, and an
  unset (empty) active pod.
\<close>

definition TargetPodProto :: target_pod_proto where
  "TargetPodProto = \<lparr>host = [], port = 0, out_edges = [], expected_parts = 0\<rparr>"

definition RoutingTableProto :: routing_table_proto where
  "RoutingTableProto = \<lparr>pods = [], active_pod = []\<rparr>"

text \<open>
  Modelled from the spec: the operations of the map field \<^verbatim>\<open>pods\<close>.
  \<^verbatim>\<open>name in pods\<close> is a pure membership test. Indexing \<^verbatim>\<open>pods[name]\<close> is
  get-or-create: a missing name gets a fresh empty descriptor, which is what
  \<^verbatim>\<open>add_pod\<close> relies on when it indexes a name it has just found absent. The message
  that indexing returns is the slot itself, not a copy: \<open>slot\<close> reads it and
  \<open>slot_update\<close> writes through it.
\<close>

definition pods_contains :: "string \<Rightarrow> routing_table_proto \<Rightarrow> bool" where
  "pods_contains name g = (map_of (pods g) name \<noteq> None)"

definition pods_getitem :: "string \<Rightarrow> routing_table_proto \<Rightarrow> routing_table_proto" where
  "pods_getitem name g =
     (if pods_contains name g then g
      else g\<lparr>pods := pods g @ [(name, TargetPodProto)]\<rparr>)"

definition slot :: "string \<Rightarrow> routing_table_proto \<Rightarrow> target_pod_proto" where
  "slot name g = (case map_of (pods g) name of Some p \<Rightarrow> p | None \<Rightarrow> TargetPodProto)"

definition slot_update ::
  "string \<Rightarrow> (target_pod_proto \<Rightarrow> target_pod_proto) \<Rightarrow> routing_table_proto \<Rightarrow> routing_table_proto" where
  "slot_update name f g = g\<lparr>pods := AList.update name (f (slot name g)) (pods g)\<rparr>"

text \<open>
  Exceptions are values. \<open>BadRequestType\<close> carries the exception it was raised from;
  \<open>OtherException\<close> stands for any other \<^verbatim>\<open>Exception\<close> a decoder may raise.
\<close>

datatype error = ValueError string | KeyError string | OtherException string | BadRequestType error

section \<open>TargetPod\<close>

text \<open>
  A \<^verbatim>\<open>TargetPod\<close> is a view of one slot of the table it was taken from, named here
  by the key of the slot. Its getters are the fields of \<open>slot pod g\<close>;
  \<^verbatim>\<open>add_edge\<close> and the \<^verbatim>\<open>expected_parts\<close> setter write through to the table.
\<close>

definition TargetPod_add_edge :: "string \<Rightarrow> string \<Rightarrow> routing_table_proto \<Rightarrow> routing_table_proto" where
  "TargetPod_add_edge pod to_pod g =
     slot_update pod (\<lambda>p. p\<lparr>out_edges := out_edges p @ [to_pod]\<rparr>) g"

definition expected_parts_set :: "string \<Rightarrow> int \<Rightarrow> routing_table_proto \<Rightarrow> routing_table_proto" where
  "expected_parts_set pod v g = slot_update pod (\<lambda>p. p\<lparr>expected_parts := v\<rparr>) g"

section \<open>RoutingTable\<close>

text \<open>
  The methods are transformers of the message body of \<^verbatim>\<open>self\<close>. A method that can
  raise or that returns a value yields the outcome together with the body as it is when
  the method returns or raises. \<^verbatim>\<open>_get_target_pod(pod)\<close> indexes \<^verbatim>\<open>self.pods\<close> and
  so may add a slot; the view it returns is the slot \<open>pod\<close> of the resulting body.
\<close>

definition get_target_pod :: "string \<Rightarrow> routing_table_proto \<Rightarrow> routing_table_proto" where
  "get_target_pod pod g = pods_getitem pod g"

definition add_edge :: "string \<Rightarrow> string \<Rightarrow> routing_table_proto \<Rightarrow> routing_table_proto" where
  "add_edge from_pod to_pod g =
     (let g1 = get_target_pod from_pod g;
          g2 = TargetPod_add_edge from_pod to_pod g1;
          g3 = get_target_pod to_pod g2
      in expected_parts_set to_pod (expected_parts (slot to_pod g3) + 1) g3)"

definition get_out_edges :: "string \<Rightarrow> routing_table_proto \<Rightarrow> string list \<times> routing_table_proto" where
  "get_out_edges pod g = (let g1 = get_target_pod pod g in (out_edges (slot pod g1), g1))"

text \<open>
  \<^verbatim>\<open>_topological_sort_pod\<close> with its loop over the out-edges. \<open>visited\<close> is the set
  of names whose entry in the \<^verbatim>\<open>defaultdict(bool)\<close> is true; the table is threaded
  through because reading out-edges indexes \<^verbatim>\<open>self.pods\<close>. The recursion is nested
  (the loop continues from the state the recursive call returns), so termination needs
  the fact that a call never loses a visited name and adds only visited names to the
  table; the names of the table still unvisited then decrease.
\<close>

definition nodes :: "routing_table_proto \<Rightarrow> string set" where
  "nodes g = fst ` set (pods g) \<union> (\<Union>p \<in> set (pods g). set (out_edges (snd p)))"

type_synonym sort_state = "string set \<times> string list \<times> routing_table_proto"

function topological_sort_pod :: "string \<Rightarrow> sort_state \<Rightarrow> sort_state"
  and topological_sort_pod_loop :: "string list \<Rightarrow> sort_state \<Rightarrow> sort_state"
where
  "topological_sort_pod pod (visited, stack, g) =
     (case topological_sort_pod_loop (fst (get_out_edges pod g))
             (insert pod visited, stack, snd (get_out_edges pod g)) of
        (visited', stack', g') \<Rightarrow> (visited', stack' @ [pod], g'))"
| "topological_sort_pod_loop [] s = s"
| "topological_sort_pod_loop (out_pod # rest) (visited, stack, g) =
     (if out_pod \<notin> visited
      then topological_sort_pod_loop rest (topological_sort_pod out_pod (visited, stack, g))
      else topological_sort_pod_loop rest (visited, stack, g))"
  by pat_completeness auto

lemma finite_nodes: "finite (nodes g)"
  by (simp add: nodes_def)

lemma pods_contains_iff: "pods_contains name g \<longleftrightarrow> name \<in> fst ` set (pods g)"
  by (simp add: pods_contains_def map_of_eq_None_iff)

lemma nodes_pods_getitem: "nodes (pods_getitem name g) = insert name (nodes g)"
  by (auto simp: pods_getitem_def nodes_def TargetPodProto_def pods_contains_iff)

lemma slot_out_edges_nodes: "set (out_edges (slot name g)) \<subseteq> nodes g"
  by (auto simp: slot_def nodes_def TargetPodProto_def split: option.splits dest!: map_of_SomeD)

lemma get_out_edges_nodes:
  "nodes (snd (get_out_edges pod g)) = insert pod (nodes g)"
  "set (fst (get_out_edges pod g)) \<subseteq> insert pod (nodes g)"
  using slot_out_edges_nodes [of pod "pods_getitem pod g"]
  by (simp_all add: get_out_edges_def get_target_pod_def Let_def nodes_pods_getitem)

definition sort_grows :: "sort_state \<Rightarrow> sort_state \<Rightarrow> bool" where
  "sort_grows s s' \<longleftrightarrow>
     fst s \<subseteq> fst s' \<and> nodes (snd (snd s')) \<subseteq> nodes (snd (snd s)) \<union> fst s'"

lemma sort_grows_refl: "sort_grows s s"
  by (auto simp: sort_grows_def)

lemma sort_grows_trans: "sort_grows s s' \<Longrightarrow> sort_grows s' s'' \<Longrightarrow> sort_grows s s''"
  by (auto simp: sort_grows_def)

lemma sort_grows_partial:
  "topological_sort_pod_topological_sort_pod_loop_dom (Inl (pod, s)) \<Longrightarrow>
     sort_grows s (topological_sort_pod pod s)"
  "topological_sort_pod_topological_sort_pod_loop_dom (Inr (ps, s)) \<Longrightarrow>
     sort_grows s (topological_sort_pod_loop ps s)"
proof (induction pod s and ps s rule: topological_sort_pod_topological_sort_pod_loop.pinduct)
  case (1 pod visited stack g)
  obtain v' st' g' where r: "topological_sort_pod_loop (fst (get_out_edges pod g))
             (insert pod visited, stack, snd (get_out_edges pod g)) = (v', st', g')"
    by (cases "topological_sort_pod_loop (fst (get_out_edges pod g))
             (insert pod visited, stack, snd (get_out_edges pod g))") auto
  from "1.IH" r have "sort_grows (insert pod visited, stack, snd (get_out_edges pod g)) (v', st', g')"
    by simp
  then have "sort_grows (visited, stack, g) (v', st' @ [pod], g')"
    by (auto simp: sort_grows_def get_out_edges_nodes)
  with 1 r show ?case
    by (simp add: topological_sort_pod.psimps)
next
  case (2 s)
  then show ?case by (simp add: topological_sort_pod_loop.psimps sort_grows_refl)
next
  case (3 out_pod rest visited stack g)
  then show ?case
    by (auto simp: topological_sort_pod_loop.psimps intro: sort_grows_trans)
qed

definition unvisited :: "string set \<Rightarrow> sort_state \<Rightarrow> nat" where
  "unvisited extra s = card ((nodes (snd (snd s)) \<union> extra) - fst s)"

lemma unvisited_mono:
  assumes "(nodes (snd (snd s')) \<union> extra') - fst s' \<subseteq> (nodes (snd (snd s)) \<union> extra) - fst s"
    and "finite extra"
  shows "unvisited extra' s' \<le> unvisited extra s"
  unfolding unvisited_def using assms by (intro card_mono) (auto simp: finite_nodes)

lemma unvisited_less:
  assumes "(nodes (snd (snd s')) \<union> extra') - fst s' \<subseteq> (nodes (snd (snd s)) \<union> extra) - fst s"
    and "x \<in> (nodes (snd (snd s)) \<union> extra) - fst s"
    and "x \<notin> (nodes (snd (snd s')) \<union> extra') - fst s'"
    and "finite extra"
  shows "unvisited extra' s' < unvisited extra s"
  unfolding unvisited_def using assms
  by (intro psubset_card_mono) (auto simp: finite_nodes)

termination topological_sort_pod
proof (relation "measures
    [\<lambda>x. case x of Inl (pod, s) \<Rightarrow> unvisited {pod} (insert pod (fst s), snd s)
                     | Inr (ps, s) \<Rightarrow> unvisited (set ps) s,
     \<lambda>x. case x of Inl _ \<Rightarrow> 1 | Inr _ \<Rightarrow> 0,
     \<lambda>x. case x of Inl _ \<Rightarrow> 0 | Inr (ps, _) \<Rightarrow> length ps]", goal_cases)
  case 1
  show ?case by simp
next
  case (2 pod visited stack g)
  have "unvisited (set (fst (get_out_edges pod g))) (insert pod visited, stack, snd (get_out_edges pod g))
        \<le> unvisited {pod} (insert pod visited, stack, g)"
    using get_out_edges_nodes [of pod g] by (intro unvisited_mono) auto
  then show ?case by (auto intro!: measures_lesseq measures_less)
next
  case (3 out_pod rest visited stack g)
  have "unvisited {out_pod} (insert out_pod visited, stack, g)
        < unvisited (set (out_pod # rest)) (visited, stack, g)"
    using 3 by (intro unvisited_less [where x = out_pod]) auto
  then show ?case by (auto intro!: measures_less)
next
  case (4 out_pod rest visited stack g)
  from sort_grows_partial(1) [OF 4(2)]
  have "unvisited (set rest) (topological_sort_pod out_pod (visited, stack, g))
        \<le> unvisited (set (out_pod # rest)) (visited, stack, g)"
    by (intro unvisited_mono) (auto simp: sort_grows_def)
  then show ?case by (auto intro!: measures_lesseq measures_less)
next
  case (5 out_pod rest visited stack g)
  have "unvisited (set rest) (visited, stack, g)
        \<le> unvisited (set (out_pod # rest)) (visited, stack, g)"
    by (intro unvisited_mono) auto
  then show ?case by (auto intro!: measures_lesseq measures_less)
qed

text \<open>
  \<^verbatim>\<open>_topological_sort\<close>: the loop runs over the keys the table has when the loop
  starts, in the order of the map.
\<close>

definition topological_sort :: "routing_table_proto \<Rightarrow> string list \<times> routing_table_proto" where
  "topological_sort g =
     (case fold (\<lambda>pod s. if pod \<notin> fst s then topological_sort_pod pod s else s)
             (map fst (pods g)) ({}, [], g) of
        (visited, stack, g') \<Rightarrow> (rev stack, g'))"

text \<open>
  \<^verbatim>\<open>is_acyclic\<close>: the dict comprehension (a later position of a name replaces an
  earlier one), then the two loops. The inner loop yields \<open>Some\<close> outcome when the
  method returns or raises inside it and \<open>None\<close> when it runs to its end; a failed
  dict lookup is the \<open>KeyError\<close> of Python.
\<close>

definition position_lookup :: "string list \<Rightarrow> (string \<rightharpoonup> nat)" where
  "position_lookup topological_sorting =
     fold (\<lambda>(position, pod) m. m(pod \<mapsto> position)) (enumerate 0 topological_sorting) Map.empty"

fun is_acyclic_edges :: "(string \<rightharpoonup> nat) \<Rightarrow> string \<Rightarrow> string list \<Rightarrow> (error + bool) option" where
  "is_acyclic_edges lookup first [] = None"
| "is_acyclic_edges lookup first (second # rest) =
     (case lookup first of
        None \<Rightarrow> Some (Inl (KeyError first))
      | Some pf \<Rightarrow>
          (case lookup second of
             None \<Rightarrow> Some (Inl (KeyError second))
           | Some ps \<Rightarrow>
               if pf > ps then Some (Inr False)
               else is_acyclic_edges lookup first rest))"

fun is_acyclic_loop ::
  "(string \<rightharpoonup> nat) \<Rightarrow> string list \<Rightarrow> routing_table_proto \<Rightarrow> (error + bool) \<times> routing_table_proto" where
  "is_acyclic_loop lookup [] g = (Inr True, g)"
| "is_acyclic_loop lookup (first # rest) g =
     (case get_out_edges first g of
        (edges, g1) \<Rightarrow>
          (case is_acyclic_edges lookup first edges of
             Some r \<Rightarrow> (r, g1)
           | None \<Rightarrow> is_acyclic_loop lookup rest g1))"

definition is_acyclic :: "routing_table_proto \<Rightarrow> (error + bool) \<times> routing_table_proto" where
  "is_acyclic g =
     (case topological_sort g of
        (topological_sorting, g1) \<Rightarrow>
          is_acyclic_loop (position_lookup topological_sorting) topological_sorting g1)"

definition add_pod ::
  "string \<Rightarrow> string \<Rightarrow> int \<Rightarrow> routing_table_proto \<Rightarrow> (error + unit) \<times> routing_table_proto" where
  "add_pod pod_name h p g =
     (if pods_contains pod_name g
      then (Inl (ValueError (''Vertex with name '' @ pod_name @
                 '' already exists. Please check your configuration for unique Pod names.'')), g)
      else
        (let g1 = pods_getitem pod_name g;
             g2 = slot_update pod_name (\<lambda>target. target\<lparr>host := h\<rparr>) g1;
             g3 = slot_update pod_name (\<lambda>target. target\<lparr>port := p\<rparr>) g2
         in (Inr (), g3)))"

definition active_pod_set :: "string \<Rightarrow> routing_table_proto \<Rightarrow> routing_table_proto" where
  "active_pod_set pod_name g = g\<lparr>active_pod := pod_name\<rparr>"

definition active_target_pod ::
  "routing_table_proto \<Rightarrow> (error + target_pod_proto) \<times> routing_table_proto" where
  "active_target_pod g =
     (let g1 = pods_getitem (active_pod g) g in (Inr (slot (active_pod g) g1), g1))"

section \<open>Objects: wrappers over shared message bodies\<close>

text \<open>
  Whether two \<^verbatim>\<open>RoutingTable\<close> objects share a message is what the \<^verbatim>\<open>copy\<close>
  flag of the constructor decides, so the messages live in a store and an object is the
  address of its \<^verbatim>\<open>_pb_body\<close>. A new message is allocated at the end of the store.
  The first statement of \<^verbatim>\<open>__init__\<close> allocates an empty message in every case;
  without \<^verbatim>\<open>copy\<close> it is dropped again and the object takes the address of the
  argument's message.

  The decoders \<^verbatim>\<open>json_format.ParseDict\<close>, \<^verbatim>\<open>json_format.Parse\<close> and
  \<^verbatim>\<open>ParseFromString\<close> belong to the protobuf library and are parameters: each takes
  the input and the message to fill and either raises or gives the filled message.
  An input of an unsupported type is represented by the name \<^verbatim>\<open>typename\<close> gives it.
\<close>

type_synonym ref = nat
type_synonym store = "routing_table_proto list"

definition update_self :: "ref \<Rightarrow> (routing_table_proto \<Rightarrow> routing_table_proto) \<Rightarrow> store \<Rightarrow> store" where
  "update_self self m h = h[self := m (h ! self)]"

definition on_self :: "ref \<Rightarrow> (routing_table_proto \<Rightarrow> 'a \<times> routing_table_proto) \<Rightarrow> store \<Rightarrow> 'a \<times> store" where
  "on_self self m h = (case m (h ! self) of (r, g) \<Rightarrow> (r, h[self := g]))"

record 'd decoders =
  ParseDict :: "'d \<Rightarrow> routing_table_proto \<Rightarrow> error + routing_table_proto"
  Parse :: "string \<Rightarrow> routing_table_proto \<Rightarrow> error + routing_table_proto"
  ParseFromString :: "8 word list \<Rightarrow> routing_table_proto \<Rightarrow> error + routing_table_proto"

datatype 'd graph_arg =
    GraphRoutingTable ref
  | GraphProto ref
  | GraphDict 'd
  | GraphStr string
  | GraphBytes "8 word list"
  | GraphOther string
  | GraphNone

definition RoutingTable_from :: "ref \<Rightarrow> bool \<Rightarrow> ref \<Rightarrow> store \<Rightarrow> ref \<times> store" where
  "RoutingTable_from graph copy self h =
     (if copy then (self, h[self := h ! graph]) else (graph, h))"

definition RoutingTable_parsed ::
  "error + routing_table_proto \<Rightarrow> ref \<Rightarrow> store \<Rightarrow> error + ref \<times> store" where
  "RoutingTable_parsed r self h =
     (case r of Inl ex \<Rightarrow> Inl ex | Inr g \<Rightarrow> Inr (self, h[self := g]))"

fun RoutingTable_try ::
  "'d decoders \<Rightarrow> 'd graph_arg \<Rightarrow> bool \<Rightarrow> ref \<Rightarrow> store \<Rightarrow> error + ref \<times> store" where
  "RoutingTable_try dec (GraphRoutingTable graph) copy self h = Inr (RoutingTable_from graph copy self h)"
| "RoutingTable_try dec (GraphProto graph) copy self h = Inr (RoutingTable_from graph copy self h)"
| "RoutingTable_try dec (GraphDict graph) copy self h =
     RoutingTable_parsed (ParseDict dec graph (h ! self)) self h"
| "RoutingTable_try dec (GraphStr graph) copy self h =
     RoutingTable_parsed (Parse dec graph (h ! self)) self h"
| "RoutingTable_try dec (GraphBytes graph) copy self h =
     RoutingTable_parsed (ParseFromString dec graph (h ! self)) self h"
| "RoutingTable_try dec (GraphOther typename) copy self h =
     Inl (ValueError (typename @ '' is not recognizable''))"
| "RoutingTable_try dec GraphNone copy self h = Inr (self, h)"

definition RoutingTable_init ::
  "'d decoders \<Rightarrow> 'd graph_arg \<Rightarrow> bool \<Rightarrow> store \<Rightarrow> (error + ref) \<times> store" where
  "RoutingTable_init dec graph copy h =
     (let self = length h; h0 = h @ [RoutingTableProto] in
      case RoutingTable_try dec graph copy self h0 of
        Inl ex \<Rightarrow> (Inl (BadRequestType ex), h0)
      | Inr (body, h1) \<Rightarrow> (Inr body, h1))"

text \<open>
  \<^verbatim>\<open>RoutingTable(self, copy=True)\<close> as \<^verbatim>\<open>get_next_targets\<close> calls it: the
  constructor on an in-memory table, which uses no decoder and cannot raise.
\<close>

definition RoutingTable_copy :: "ref \<Rightarrow> store \<Rightarrow> ref \<times> store" where
  "RoutingTable_copy graph h =
     (let self = length h; h0 = h @ [RoutingTableProto] in RoutingTable_from graph True self h0)"

fun get_next_targets_loop :: "ref \<Rightarrow> string list \<Rightarrow> ref list \<Rightarrow> store \<Rightarrow> ref list \<times> store" where
  "get_next_targets_loop self [] targets h = (targets, h)"
| "get_next_targets_loop self (next_pod_index # rest) targets h =
     (case RoutingTable_copy self h of
        (new_graph, h1) \<Rightarrow>
          get_next_targets_loop self rest (targets @ [new_graph])
            (update_self new_graph (active_pod_set next_pod_index) h1))"

definition get_next_targets :: "ref \<Rightarrow> store \<Rightarrow> (error + ref list) \<times> store" where
  "get_next_targets self h =
     (case on_self self (\<lambda>g. get_out_edges (active_pod g) g) h of
        (edges, h1) \<Rightarrow>
          (case get_next_targets_loop self edges [] h1 of
             (targets, h2) \<Rightarrow> (Inr targets, h2)))"

section \<open>Reading and writing slots\<close>

lemma slot_pods_getitem: "slot n (pods_getitem m g) = slot n g"
  by (auto simp: slot_def pods_getitem_def pods_contains_def map_add_def
      split: option.splits if_splits)

lemma slot_slot_update:
  "slot n (slot_update m f g) = (if n = m then f (slot m g) else slot n g)"
  by (simp add: slot_def slot_update_def update_conv')

lemma pods_contains_pods_getitem:
  "pods_contains n (pods_getitem m g) \<longleftrightarrow> n = m \<or> pods_contains n g"
  by (auto simp: pods_getitem_def pods_contains_iff)

lemma pods_contains_slot_update:
  "pods_contains n (slot_update m f g) \<longleftrightarrow> n = m \<or> pods_contains n g"
  by (auto simp: slot_update_def pods_contains_def update_conv')

lemma active_pod_pods_getitem: "active_pod (pods_getitem m g) = active_pod g"
  by (simp add: pods_getitem_def)

lemma active_pod_slot_update: "active_pod (slot_update m f g) = active_pod g"
  by (simp add: slot_update_def)

lemma pods_getitem_present: "pods_contains n g \<Longrightarrow> pods_getitem n g = g"
  by (simp add: pods_getitem_def)

lemma out_edges_slot_present:
  "out_edges (slot n g) \<noteq> [] \<Longrightarrow> pods_contains n g"
  by (auto simp: slot_def pods_contains_def TargetPodProto_def split: option.splits)

lemma slot_add_edge:
  "slot n (add_edge from_pod to_pod g) =
     (let p = slot n g;
          p1 = (if n = from_pod then p\<lparr>out_edges := out_edges p @ [to_pod]\<rparr> else p)
      in if n = to_pod then p1\<lparr>expected_parts := expected_parts p1 + 1\<rparr> else p1)"
  by (simp add: add_edge_def get_target_pod_def TargetPod_add_edge_def expected_parts_set_def
      Let_def slot_slot_update slot_pods_getitem)

lemma pods_contains_add_edge:
  "pods_contains n (add_edge from_pod to_pod g) \<longleftrightarrow>
     n = from_pod \<or> n = to_pod \<or> pods_contains n g"
  by (auto simp: add_edge_def get_target_pod_def TargetPod_add_edge_def expected_parts_set_def
      Let_def pods_contains_slot_update pods_contains_pods_getitem)

section \<open>The active pod\<close>

text \<open>
  C3, as stated: reading \<open>active_target_pod\<close> when the active name is not a key of
  \<open>pods\<close> fails and leaves the table alone. On the table that is empty except for
  \<open>active_pod = 'X'\<close> the read returns a descriptor and the table gains the key.
\<close>

theorem active_target_pod_missing_counterexample:
  "\<not> pods_contains ''X'' (active_pod_set ''X'' RoutingTableProto) \<and>
   active_target_pod (active_pod_set ''X'' RoutingTableProto) =
     (Inr TargetPodProto, \<lparr>pods = [(''X'', TargetPodProto)], active_pod = ''X''\<rparr>) \<and>
   snd (active_target_pod (active_pod_set ''X'' RoutingTableProto)) \<noteq>
     active_pod_set ''X'' RoutingTableProto"
  by (simp add: active_target_pod_def active_pod_set_def RoutingTableProto_def pods_getitem_def
      pods_contains_def slot_def)

text \<open>
  C3, amended: reading \<open>active_target_pod\<close> when the active name is not a key of
  \<open>pods\<close> raises nothing; it appends an empty descriptor under that name (empty host,
  port 0, no out-edges, expected parts 0) and returns it, and changes nothing else.
\<close>

theorem active_target_pod_missing:
  assumes "\<not> pods_contains (active_pod g) g"
  shows "active_target_pod g =
           (Inr TargetPodProto, g\<lparr>pods := pods g @ [(active_pod g, TargetPodProto)]\<rparr>)"
  using assms
  by (simp add: active_target_pod_def Let_def pods_getitem_def slot_def map_add_def
      pods_contains_def)

theorem active_target_pod_missing_witness:
  "\<not> pods_contains (active_pod (active_pod_set ''X'' RoutingTableProto))
       (active_pod_set ''X'' RoutingTableProto) \<and>
   active_target_pod (active_pod_set ''X'' RoutingTableProto) =
     (Inr TargetPodProto,
      (active_pod_set ''X'' RoutingTableProto)
        \<lparr>pods := pods (active_pod_set ''X'' RoutingTableProto) @
           [(active_pod (active_pod_set ''X'' RoutingTableProto), TargetPodProto)]\<rparr>)"
proof -
  have h: "\<not> pods_contains (active_pod (active_pod_set ''X'' RoutingTableProto))
       (active_pod_set ''X'' RoutingTableProto)"
    by (simp add: active_pod_set_def RoutingTableProto_def pods_contains_def)
  show ?thesis using h active_target_pod_missing [OF h] by simp
qed

section \<open>Adding pods\<close>

lemma add_pod_present:
  "pods_contains n g \<Longrightarrow>
     add_pod n h p g =
       (Inl (ValueError (''Vertex with name '' @ n @
          '' already exists. Please check your configuration for unique Pod names.'')), g)"
  by (simp add: add_pod_def)

lemma add_pod_absent:
  assumes "\<not> pods_contains n g"
  shows "fst (add_pod n h p g) = Inr ()"
    and "pods_contains n (snd (add_pod n h p g))"
    and "host (slot n (snd (add_pod n h p g))) = h"
    and "port (slot n (snd (add_pod n h p g))) = p"
  using assms
  by (simp_all add: add_pod_def Let_def pods_contains_slot_update slot_slot_update)

text \<open>
  C4. When \<open>n\<close> is already a key of \<open>pods\<close>, \<open>add_pod(n, host, port)\<close> raises the
  duplicate-vertex \<open>ValueError\<close> and the table is exactly as before. Hence of two calls
  with the same name the second one always fails and changes nothing, and when the first
  one succeeded the node still has the host and port of the first call.
\<close>

theorem add_pod_duplicate:
  "(pods_contains n g \<longrightarrow>
      add_pod n h p g =
        (Inl (ValueError (''Vertex with name '' @ n @
           '' already exists. Please check your configuration for unique Pod names.'')), g)) \<and>
   (case add_pod n h p g of
      (r1, g1) \<Rightarrow>
        add_pod n h' p' g1 =
          (Inl (ValueError (''Vertex with name '' @ n @
             '' already exists. Please check your configuration for unique Pod names.'')), g1) \<and>
        (\<not> pods_contains n g \<longrightarrow>
           r1 = Inr () \<and> host (slot n g1) = h \<and> port (slot n g1) = p))"
proof (cases "pods_contains n g")
  case True
  then show ?thesis by (simp add: add_pod_present)
next
  case False
  obtain r1 g1 where r: "add_pod n h p g = (r1, g1)"
    by (cases "add_pod n h p g") auto
  from add_pod_absent [OF False, of h p] r
  have "r1 = Inr ()" "pods_contains n g1" "host (slot n g1) = h" "port (slot n g1) = p"
    by simp_all
  with False r show ?thesis by (simp add: add_pod_present)
qed

theorem add_pod_duplicate_witness:
  "pods_contains ''A'' (add_edge ''A'' ''B'' RoutingTableProto) \<and>
   add_pod ''A'' ''h'' 1 (add_edge ''A'' ''B'' RoutingTableProto) =
     (Inl (ValueError (''Vertex with name '' @ ''A'' @
        '' already exists. Please check your configuration for unique Pod names.'')),
      add_edge ''A'' ''B'' RoutingTableProto) \<and>
   \<not> pods_contains ''P'' RoutingTableProto \<and>
   fst (add_pod ''P'' ''h'' 1 RoutingTableProto) = Inr () \<and>
   host (slot ''P'' (snd (add_pod ''P'' ''h'' 1 RoutingTableProto))) = ''h'' \<and>
   port (slot ''P'' (snd (add_pod ''P'' ''h'' 1 RoutingTableProto))) = 1 \<and>
   add_pod ''P'' ''k'' 2 (snd (add_pod ''P'' ''h'' 1 RoutingTableProto)) =
     (Inl (ValueError (''Vertex with name '' @ ''P'' @
        '' already exists. Please check your configuration for unique Pod names.'')),
      snd (add_pod ''P'' ''h'' 1 RoutingTableProto))"
proof -
  have a: "pods_contains ''A'' (add_edge ''A'' ''B'' RoutingTableProto)"
    by (simp add: pods_contains_add_edge)
  have b: "\<not> pods_contains ''P'' RoutingTableProto"
    by (simp add: pods_contains_def RoutingTableProto_def)
  show ?thesis
    using a b
      add_pod_duplicate [of "''A''" "add_edge ''A'' ''B'' RoutingTableProto" "''h''" 1 "''k''" 2]
      add_pod_duplicate [of "''P''" RoutingTableProto "''h''" 1 "''k''" 2]
    by (simp add: case_prod_beta)
qed

section \<open>Sequences of edge insertions\<close>

definition add_edges :: "(string \<times> string) list \<Rightarrow> routing_table_proto \<Rightarrow> routing_table_proto" where
  "add_edges calls g = fold (\<lambda>(from_pod, to_pod). add_edge from_pod to_pod) calls g"

lemma add_edges_Nil: "add_edges [] g = g"
  by (simp add: add_edges_def)

lemma add_edges_Cons: "add_edges (c # calls) g = add_edges calls (add_edge (fst c) (snd c) g)"
  by (simp add: add_edges_def case_prod_beta)


lemma out_edges_add_edges:
  "out_edges (slot n (add_edges calls g)) =
     out_edges (slot n g) @ map snd (filter (\<lambda>c. fst c = n) calls)"
proof (induction calls arbitrary: g)
  case Nil
  show ?case by (simp add: add_edges_Nil)
next
  case (Cons c calls)
  show ?case
    by (simp add: add_edges_Cons Cons.IH slot_add_edge Let_def)
qed

lemma slot_empty: "slot n RoutingTableProto = TargetPodProto"
  by (simp add: slot_def RoutingTableProto_def)

text \<open>
  C8. After any sequence of \<open>add_edge\<close> calls on an empty table, the out-edge list of a
  node \<open>n\<close> is the list of the "to" arguments of the calls whose "from" argument was
  \<open>n\<close>, in call order and with repetitions kept.
\<close>

theorem out_edges_call_order:
  "out_edges (slot n (add_edges calls RoutingTableProto)) =
     map snd (filter (\<lambda>c. fst c = n) calls)"
  by (simp add: out_edges_add_edges slot_empty TargetPodProto_def)

section \<open>What the other methods leave alone\<close>

lemma slot_get_out_edges: "slot n (snd (get_out_edges pod g)) = slot n g"
  by (simp add: get_out_edges_def get_target_pod_def Let_def slot_pods_getitem)

lemma slot_topological_sort_pod:
  "slot n (snd (snd (topological_sort_pod pod s))) = slot n (snd (snd s))"
  "slot n (snd (snd (topological_sort_pod_loop ps s))) = slot n (snd (snd s))"
proof (induction pod s and ps s rule: topological_sort_pod_topological_sort_pod_loop.induct)
  case (1 pod visited stack g)
  then show ?case
    by (simp add: slot_get_out_edges case_prod_beta)
next
  case (2 s)
  show ?case by simp
next
  case (3 out_pod rest visited stack g)
  then show ?case by simp
qed

lemma slot_topological_sort_fold:
  "slot n (snd (snd (fold (\<lambda>pod s. if pod \<notin> fst s then topological_sort_pod pod s else s) ps s)))
     = slot n (snd (snd s))"
  by (induction ps arbitrary: s) (simp_all add: slot_topological_sort_pod)

lemma slot_topological_sort: "slot n (snd (topological_sort g)) = slot n g"
  using slot_topological_sort_fold [of n "map fst (pods g)" "({}, [], g)"]
  by (simp add: topological_sort_def case_prod_beta)






section \<open>Acyclicity check\<close>

definition edge_rel :: "routing_table_proto \<Rightarrow> (string \<times> string) set" where
  "edge_rel g = {(x, y). y \<in> set (out_edges (slot x g))}"

lemma fst_get_out_edges: "fst (get_out_edges pod g) = out_edges (slot pod g)"
  by (simp add: get_out_edges_def get_target_pod_def Let_def slot_pods_getitem)

definition sort_post :: "sort_state \<Rightarrow> sort_state \<Rightarrow> bool" where
  "sort_post s s' \<longleftrightarrow>
     (\<exists>new. fst (snd s') = fst (snd s) @ new \<and> fst s' = fst s \<union> set new \<and>
        (\<forall>x\<in>set new. set (out_edges (slot x (snd (snd s)))) \<subseteq> fst s'))"

lemma sort_post_refl: "sort_post s s"
  by (simp add: sort_post_def)

lemma sort_post_mono: "sort_post s s' \<Longrightarrow> fst s \<subseteq> fst s'"
  by (auto simp: sort_post_def)

lemma sort_post_trans:
  assumes "sort_post s s'" "sort_post s' s''"
    and "\<And>n. slot n (snd (snd s')) = slot n (snd (snd s))"
  shows "sort_post s s''"
proof -
  from assms(1) obtain new1 where 1: "fst (snd s') = fst (snd s) @ new1"
    "fst s' = fst s \<union> set new1"
    "\<forall>x\<in>set new1. set (out_edges (slot x (snd (snd s)))) \<subseteq> fst s'"
    by (auto simp: sort_post_def)
  from assms(2) obtain new2 where 2: "fst (snd s'') = fst (snd s') @ new2"
    "fst s'' = fst s' \<union> set new2"
    "\<forall>x\<in>set new2. set (out_edges (slot x (snd (snd s')))) \<subseteq> fst s''"
    by (auto simp: sort_post_def)
  have "fst (snd s'') = fst (snd s) @ (new1 @ new2)" using 1 2 by simp
  moreover have "fst s'' = fst s \<union> set (new1 @ new2)" using 1 2 by auto
  moreover have "\<forall>x\<in>set (new1 @ new2). set (out_edges (slot x (snd (snd s)))) \<subseteq> fst s''"
    using 1 2 assms(3) by auto
  ultimately show ?thesis unfolding sort_post_def by blast
qed

lemma sort_post_topological_sort_pod:
  "sort_post s (topological_sort_pod pod s) \<and> pod \<in> fst (topological_sort_pod pod s)"
  "sort_post s (topological_sort_pod_loop ps s) \<and> set ps \<subseteq> fst (topological_sort_pod_loop ps s)"
proof (induction pod s and ps s rule: topological_sort_pod_topological_sort_pod_loop.induct)
  case (1 pod visited stack g)
  let ?s1 = "(insert pod visited, stack, snd (get_out_edges pod g))"
  let ?s2 = "topological_sort_pod_loop (fst (get_out_edges pod g)) ?s1"
  from "1.IH" obtain new where n: "fst (snd ?s2) = stack @ new"
    "fst ?s2 = insert pod visited \<union> set new"
    "\<forall>x\<in>set new. set (out_edges (slot x (snd (get_out_edges pod g)))) \<subseteq> fst ?s2"
    and e: "set (fst (get_out_edges pod g)) \<subseteq> fst ?s2"
    by (auto simp: sort_post_def)
  have r: "topological_sort_pod pod (visited, stack, g) = (fst ?s2, fst (snd ?s2) @ [pod], snd (snd ?s2))"
    by (simp add: case_prod_beta)
  have "fst (snd ?s2) @ [pod] = stack @ (new @ [pod])" using n by simp
  moreover have "fst ?s2 = visited \<union> set (new @ [pod])" using n by auto
  moreover have "\<forall>x\<in>set (new @ [pod]). set (out_edges (slot x g)) \<subseteq> fst ?s2"
    using n(3) e by (auto simp: slot_get_out_edges fst_get_out_edges)
  ultimately have "sort_post (visited, stack, g) (fst ?s2, fst (snd ?s2) @ [pod], snd (snd ?s2))"
    unfolding sort_post_def by (metis fst_conv snd_conv)
  moreover have "pod \<in> fst ?s2" using n(2) by simp
  ultimately show ?case unfolding r by simp
next
  case (2 s)
  show ?case by (simp add: sort_post_refl)
next
  case (3 out_pod rest visited stack g)
  show ?case
  proof (cases "out_pod \<in> visited")
    case True
    with "3.IH"(3) have "sort_post (visited, stack, g) (topological_sort_pod_loop rest (visited, stack, g))"
      "set rest \<subseteq> fst (topological_sort_pod_loop rest (visited, stack, g))"
      by simp_all
    with True sort_post_mono [OF this(1)] show ?thesis by auto
  next
    case False
    let ?s' = "topological_sort_pod out_pod (visited, stack, g)"
    let ?s'' = "topological_sort_pod_loop rest ?s'"
    from False "3.IH"(1) have a: "sort_post (visited, stack, g) ?s'" "out_pod \<in> fst ?s'" by simp_all
    from False "3.IH"(2) have b: "sort_post ?s' ?s''" "set rest \<subseteq> fst ?s''" by simp_all
    have "sort_post (visited, stack, g) ?s''"
      using a(1) b(1) by (rule sort_post_trans)
        (simp add: slot_topological_sort_pod del: topological_sort_pod.simps)
    moreover have "out_pod \<in> fst ?s''" using a(2) sort_post_mono [OF b(1)] by auto
    ultimately show ?thesis using False b(2) by simp
  qed
qed

lemma topological_sort_fold_loop:
  "fold (\<lambda>pod s. if pod \<notin> fst s then topological_sort_pod pod s else s) ps s =
     topological_sort_pod_loop ps s"
proof (induction ps arbitrary: s)
  case Nil
  show ?case by simp
next
  case (Cons p ps)
  obtain visited stack g where s: "s = (visited, stack, g)" by (cases s) auto
  show ?case by (simp add: s Cons.IH)
qed

lemma topological_sort_closed:
  "fst ` set (pods g) \<subseteq> set (fst (topological_sort g))"
  "x \<in> set (fst (topological_sort g)) \<Longrightarrow>
     set (out_edges (slot x g)) \<subseteq> set (fst (topological_sort g))"
proof -
  let ?s' = "topological_sort_pod_loop (map fst (pods g)) ({}, [], g)"
  have ts: "fst (topological_sort g) = rev (fst (snd ?s'))"
    by (simp add: topological_sort_def topological_sort_fold_loop case_prod_beta)
  from sort_post_topological_sort_pod(2) [of "({}, [], g)" "map fst (pods g)"]
  obtain new where n: "fst (snd ?s') = new" "fst ?s' = set new"
    "\<forall>x\<in>set new. set (out_edges (slot x g)) \<subseteq> fst ?s'"
    and k: "set (map fst (pods g)) \<subseteq> fst ?s'"
    by (auto simp: sort_post_def)
  show "fst ` set (pods g) \<subseteq> set (fst (topological_sort g))"
    using k n by (simp add: ts)
  show "set (out_edges (slot x g)) \<subseteq> set (fst (topological_sort g))"
    if "x \<in> set (fst (topological_sort g))"
    using that n by (simp add: ts)
qed


definition position_step :: "nat \<times> string \<Rightarrow> (string \<rightharpoonup> nat) \<Rightarrow> (string \<rightharpoonup> nat)" where
  "position_step = (\<lambda>(position, pod) m. m(pod \<mapsto> position))"

lemma position_step_apply: "position_step (position, pod) m = m(pod \<mapsto> position)"
  by (simp add: position_step_def)

lemma position_lookup_step:
  "position_lookup xs = fold position_step (enumerate 0 xs) Map.empty"
  by (simp add: position_lookup_def position_step_def)

lemma position_fold_keeps:
  "m x \<noteq> None \<Longrightarrow>
     fold position_step ps m x \<noteq> None"
proof (induction ps arbitrary: m)
  case Nil
  then show ?case by simp
next
  case (Cons p ps)
  obtain position pod where p: "p = (position, pod)" by (cases p) auto
  have step: "fold position_step (p # ps) m = fold position_step ps (m(pod \<mapsto> position))"
    by (simp add: p position_step_apply)
  from Cons.prems have "(m(pod \<mapsto> position)) x \<noteq> None" by simp
  then show ?case unfolding step by (rule Cons.IH [of "m(pod \<mapsto> position)"])
qed

lemma position_fold_defined:
  "x \<in> set xs \<Longrightarrow>
     fold position_step (enumerate k xs) m x \<noteq> None"
proof (induction xs arbitrary: k m)
  case Nil
  then show ?case by simp
next
  case (Cons y ys)
  show ?case
  proof (cases "x = y")
    case True
    have "(m(y \<mapsto> k)) x \<noteq> None" using True by simp
    from position_fold_keeps [of "m(y \<mapsto> k)" x, OF this] show ?thesis
      by (simp add: position_step_apply)
  next
    case False
    with Cons.prems have "x \<in> set ys" by simp
    from Cons.IH [OF this] show ?thesis by (simp add: position_step_apply)
  qed
qed

lemma position_fold_sound:
  "fold position_step (enumerate k xs) m x = Some i \<Longrightarrow>
     m x = Some i \<or> (k \<le> i \<and> i < k + length xs \<and> xs ! (i - k) = x)"
proof (induction xs arbitrary: k m)
  case Nil
  then show ?case by simp
next
  case (Cons y ys)
  from Cons.prems
  have "fold position_step (enumerate (Suc k) ys) (m(y \<mapsto> k)) x = Some i"
    by (simp add: position_step_apply)
  from Cons.IH [OF this]
  consider "(m(y \<mapsto> k)) x = Some i" | "Suc k \<le> i" "i < Suc k + length ys" "ys ! (i - Suc k) = x"
    by blast
  then show ?case
  proof cases
    case 1
    then show ?thesis by (auto split: if_splits)
  next
    case 2
    then have "(y # ys) ! (i - k) = x"
      by (simp add: nth_Cons' Suc_diff_le)
    with 2 show ?thesis by simp
  qed
qed

lemma position_lookup_defined:
  "x \<in> set xs \<Longrightarrow> position_lookup xs x \<noteq> None"
  by (simp add: position_lookup_step position_fold_defined)

lemma position_lookup_inj:
  assumes "position_lookup xs x = Some i" "position_lookup xs y = Some i"
  shows "x = y"
  using position_fold_sound [of 0 xs Map.empty x i] position_fold_sound [of 0 xs Map.empty y i] assms
  by (simp add: position_lookup_step)

lemma is_acyclic_edges_result:
  assumes "lookup first \<noteq> None" "\<forall>s\<in>set es. lookup s \<noteq> None"
  shows "is_acyclic_edges lookup first es =
           (if \<exists>s\<in>set es. the (lookup s) < the (lookup first) then Some (Inr False) else None)"
  using assms by (induction es) auto

lemma is_acyclic_loop_result:
  assumes "\<forall>f\<in>set fs. lookup f \<noteq> None \<and> (\<forall>s\<in>set (out_edges (slot f g)). lookup s \<noteq> None)"
  shows "fst (is_acyclic_loop lookup fs g) =
           Inr (\<not> (\<exists>f\<in>set fs. \<exists>s\<in>set (out_edges (slot f g)). the (lookup s) < the (lookup f)))"
  using assms
proof (induction fs arbitrary: g)
  case Nil
  show ?case by simp
next
  case (Cons f fs)
  let ?g1 = "snd (get_out_edges f g)"
  have sl: "\<And>n. slot n ?g1 = slot n g" by (simp add: slot_get_out_edges)
  have e: "is_acyclic_edges lookup f (out_edges (slot f g)) =
      (if \<exists>s\<in>set (out_edges (slot f g)). the (lookup s) < the (lookup f)
       then Some (Inr False) else None)"
    using Cons.prems by (intro is_acyclic_edges_result) simp_all
  have ih: "fst (is_acyclic_loop lookup fs ?g1) =
      Inr (\<not> (\<exists>f\<in>set fs. \<exists>s\<in>set (out_edges (slot f g)). the (lookup s) < the (lookup f)))"
    using Cons.IH [of ?g1] Cons.prems by (simp add: sl)
  show ?case
    using e ih by (auto simp: case_prod_beta fst_get_out_edges)
qed


lemma is_acyclic_result:
  "fst (is_acyclic g) =
     Inr (\<not> (\<exists>f\<in>set (fst (topological_sort g)). \<exists>s\<in>set (out_edges (slot f g)).
              the (position_lookup (fst (topological_sort g)) s) <
              the (position_lookup (fst (topological_sort g)) f)))"
proof -
  let ?S = "fst (topological_sort g)"
  let ?g1 = "snd (topological_sort g)"
  have sl: "\<And>n. slot n ?g1 = slot n g" by (simp add: slot_topological_sort)
  have "\<forall>f\<in>set ?S. position_lookup ?S f \<noteq> None \<and>
          (\<forall>s\<in>set (out_edges (slot f ?g1)). position_lookup ?S s \<noteq> None)"
  proof (intro ballI conjI)
    fix f assume f: "f \<in> set ?S"
    then show "position_lookup ?S f \<noteq> None" by (rule position_lookup_defined)
    fix s assume "s \<in> set (out_edges (slot f ?g1))"
    with topological_sort_closed(2) [OF f] have "s \<in> set ?S" by (auto simp: sl)
    then show "position_lookup ?S s \<noteq> None" by (rule position_lookup_defined)
  qed
  from is_acyclic_loop_result [OF this] show ?thesis
    by (simp add: is_acyclic_def case_prod_beta sl)
qed

text \<open>
  A cycle through two different nodes is always reported, whatever the order of the keys:
  the self-loop is the only kind of cycle that escapes the check.
\<close>

lemma is_acyclic_detects_proper_cycle:
  assumes uv: "(u, v) \<in> (edge_rel g)\<^sup>+" and vu: "(v, u) \<in> (edge_rel g)\<^sup>+" and ne: "u \<noteq> v"
  shows "fst (is_acyclic g) = Inr False"
proof (rule ccontr)
  let ?S = "fst (topological_sort g)"
  let ?pos = "\<lambda>x. the (position_lookup ?S x)"
  assume "fst (is_acyclic g) \<noteq> Inr False"
  then have ord: "\<And>f s. f \<in> set ?S \<Longrightarrow> s \<in> set (out_edges (slot f g)) \<Longrightarrow> ?pos f \<le> ?pos s"
    by (auto simp: is_acyclic_result not_less)
  have walk: "x \<in> set ?S \<Longrightarrow> y \<in> set ?S \<and> ?pos x \<le> ?pos y"
    if "(x, y) \<in> (edge_rel g)\<^sup>+" for x y
    using that
  proof (induction rule: trancl_induct)
    case (base y)
    then have "y \<in> set (out_edges (slot x g))" by (simp add: edge_rel_def)
    with base ord [of x y] topological_sort_closed(2) [of x g] show ?case by auto
  next
    case (step y z)
    then have "z \<in> set (out_edges (slot y g))" by (simp add: edge_rel_def)
    with step ord [of y z] topological_sort_closed(2) [of y g] show ?case by auto
  qed
  from uv obtain w where "(u, w) \<in> edge_rel g"
    by (meson tranclD)
  then have "out_edges (slot u g) \<noteq> []" by (auto simp: edge_rel_def)
  then have "pods_contains u g" by (rule out_edges_slot_present)
  then have u: "u \<in> set ?S"
    using topological_sort_closed(1) [of g] by (auto simp: pods_contains_iff)
  from walk [OF uv u] have v: "v \<in> set ?S" and le1: "?pos u \<le> ?pos v" by simp_all
  from walk [OF vu v] have le2: "?pos v \<le> ?pos u" by simp
  from u v obtain i j where ij: "position_lookup ?S u = Some i" "position_lookup ?S v = Some j"
    using position_lookup_defined by blast
  with le1 le2 have "i = j" by simp
  with ij have "u = v" by (auto intro: position_lookup_inj)
  with ne show False by simp
qed

text \<open>
  The converse needs the order in which the search finishes nodes. A node is pushed when
  all its out-edges have been followed, so an out-edge of a pushed node leads to the node
  itself, to a node pushed earlier, or to a node that was entered before it and is not
  finished yet; such a node reaches it.
\<close>

definition finished_ok :: "(string \<times> string) set \<Rightarrow> string list \<Rightarrow> bool" where
  "finished_ok E st \<longleftrightarrow>
     (\<forall>i<length st. \<forall>y. (st ! i, y) \<in> E \<longrightarrow> y \<in> set (take (Suc i) st) \<or> (y, st ! i) \<in> E\<^sup>+)"

lemma finished_ok_Nil: "finished_ok E []"
  by (simp add: finished_ok_def)

lemma finished_ok_snoc:
  assumes "finished_ok E st"
    and "\<And>y. (x, y) \<in> E \<Longrightarrow> y = x \<or> y \<in> set st \<or> (y, x) \<in> E\<^sup>+"
  shows "finished_ok E (st @ [x])"
  unfolding finished_ok_def
proof (intro allI impI)
  fix i y assume i: "i < length (st @ [x])" and e: "((st @ [x]) ! i, y) \<in> E"
  show "y \<in> set (take (Suc i) (st @ [x])) \<or> (y, (st @ [x]) ! i) \<in> E\<^sup>+"
  proof (cases "i < length st")
    case True
    with e have "(st ! i, y) \<in> E" by (simp add: nth_append)
    with assms(1) True have "y \<in> set (take (Suc i) st) \<or> (y, st ! i) \<in> E\<^sup>+"
      by (simp add: finished_ok_def)
    with True show ?thesis by (auto simp: nth_append)
  next
    case False
    with i have il: "i = length st" by simp
    with e have "(x, y) \<in> E" by simp
    from assms(2) [OF this] il show ?thesis by auto
  qed
qed

definition dfs_pre :: "(string \<times> string) set \<Rightarrow> sort_state \<Rightarrow> bool" where
  "dfs_pre E s \<longleftrightarrow>
     edge_rel (snd (snd s)) = E \<and> set (fst (snd s)) \<subseteq> fst s \<and> distinct (fst (snd s)) \<and>
     finished_ok E (fst (snd s))"

definition dfs_post :: "(string \<times> string) set \<Rightarrow> string set \<Rightarrow> sort_state \<Rightarrow> sort_state \<Rightarrow> bool" where
  "dfs_post E roots s s' \<longleftrightarrow>
     dfs_pre E s' \<and>
     (\<exists>new. fst (snd s') = fst (snd s) @ new \<and> fst s' = fst s \<union> set new \<and>
        set new \<inter> fst s = {} \<and> (\<forall>x\<in>set new. \<exists>p\<in>roots. (p, x) \<in> E\<^sup>*))"

lemma dfs_spec:
  "dfs_pre E s \<Longrightarrow> pod \<notin> fst s \<Longrightarrow>
     (\<forall>a\<in>fst s - set (fst (snd s)). (a, pod) \<in> E\<^sup>*) \<Longrightarrow>
     dfs_post E {pod} s (topological_sort_pod pod s) \<and> pod \<in> fst (topological_sort_pod pod s)"
  "dfs_pre E s \<Longrightarrow>
     (\<forall>a\<in>fst s - set (fst (snd s)). \<forall>p\<in>set ps. (a, p) \<in> E\<^sup>*) \<Longrightarrow>
     dfs_post E (set ps) s (topological_sort_pod_loop ps s) \<and>
     set ps \<subseteq> fst (topological_sort_pod_loop ps s)"
proof (induction pod s and ps s rule: topological_sort_pod_topological_sort_pod_loop.induct)
  case (1 pod visited stack g)
  let ?edges = "fst (get_out_edges pod g)"
  let ?s1 = "(insert pod visited, stack, snd (get_out_edges pod g))"
  let ?s2 = "topological_sort_pod_loop ?edges ?s1"
  from "1.prems" have E: "edge_rel g = E" and sub: "set stack \<subseteq> visited" and d: "distinct stack"
    and ok: "finished_ok E stack" and nv: "pod \<notin> visited"
    and gray: "\<forall>a\<in>visited - set stack. (a, pod) \<in> E\<^sup>*"
    by (simp_all add: dfs_pre_def)
  have edges: "set ?edges = E `` {pod}"
    using E by (auto simp: fst_get_out_edges edge_rel_def)
  have pre1: "dfs_pre E ?s1"
    using E sub d ok by (auto simp: dfs_pre_def edge_rel_def slot_get_out_edges)
  have gray1: "\<forall>a\<in>fst ?s1 - set (fst (snd ?s1)). \<forall>p\<in>set ?edges. (a, p) \<in> E\<^sup>*"
  proof (intro ballI)
    fix a p assume a: "a \<in> fst ?s1 - set (fst (snd ?s1))" and p: "p \<in> set ?edges"
    from p edges have "(pod, p) \<in> E" by simp
    moreover from a gray have "(a, pod) \<in> E\<^sup>*" by auto
    ultimately show "(a, p) \<in> E\<^sup>*" by simp
  qed
  from "1.IH" [OF pre1 gray1]
  have post2: "dfs_post E (set ?edges) ?s1 ?s2" and cl: "set ?edges \<subseteq> fst ?s2" by simp_all
  from post2 obtain new where pre2: "dfs_pre E ?s2" and n: "fst (snd ?s2) = stack @ new"
    "fst ?s2 = insert pod visited \<union> set new" "set new \<inter> insert pod visited = {}"
    "\<forall>x\<in>set new. \<exists>p\<in>set ?edges. (p, x) \<in> E\<^sup>*"
    by (auto simp: dfs_post_def)
  let ?s' = "(fst ?s2, fst (snd ?s2) @ [pod], snd (snd ?s2))"
  have r: "topological_sort_pod pod (visited, stack, g) = ?s'"
    by (simp add: case_prod_beta)
  have reach: "\<forall>x\<in>set (new @ [pod]). \<exists>p\<in>{pod}. (p, x) \<in> E\<^sup>*"
  proof
    fix x assume "x \<in> set (new @ [pod])"
    then consider "x = pod" | "x \<in> set new" by auto
    then show "\<exists>p\<in>{pod}. (p, x) \<in> E\<^sup>*"
    proof cases
      case 1 then show ?thesis by simp
    next
      case 2
      with n(4) obtain p where "p \<in> set ?edges" "(p, x) \<in> E\<^sup>*" by blast
      with edges have "(pod, p) \<in> E" "(p, x) \<in> E\<^sup>*" by simp_all
      then show ?thesis by (auto intro: converse_rtrancl_into_rtrancl)
    qed
  qed
  have okp: "y = pod \<or> y \<in> set (stack @ new) \<or> (y, pod) \<in> E\<^sup>+" if "(pod, y) \<in> E" for y
  proof -
    from that edges cl n(2) have "y = pod \<or> y \<in> visited \<or> y \<in> set new" by auto
    moreover have "(y, pod) \<in> E\<^sup>+" if "y \<in> visited" "y \<notin> set stack"
    proof -
      from that gray have "(y, pod) \<in> E\<^sup>*" by simp
      moreover from that nv have "y \<noteq> pod" by auto
      ultimately show ?thesis by (simp add: rtrancl_eq_or_trancl)
    qed
    ultimately show ?thesis by auto
  qed
  from pre2 have ok2: "finished_ok E (stack @ new)" and d2: "distinct (stack @ new)"
    and E2: "edge_rel (snd (snd ?s2)) = E"
    by (simp_all add: dfs_pre_def n(1))
  have "finished_ok E ((stack @ new) @ [pod])"
    using ok2 okp by (rule finished_ok_snoc)
  moreover have "pod \<notin> set (stack @ new)" using nv sub n(3) by auto
  ultimately have pre': "dfs_pre E ?s'"
    using E2 d2 sub n by (auto simp: dfs_pre_def)
  have "fst (snd ?s') = stack @ (new @ [pod])" "fst ?s' = visited \<union> set (new @ [pod])"
    "set (new @ [pod]) \<inter> visited = {}"
    using n nv by auto
  with pre' reach have "dfs_post E {pod} (visited, stack, g) ?s'"
    unfolding dfs_post_def by (metis fst_conv snd_conv)
  moreover have "pod \<in> fst ?s'" using n(2) by simp
  ultimately show ?case unfolding r by simp
next
  case (2 s)
  then show ?case by (simp add: dfs_post_def)
next
  case (3 out_pod rest visited stack g)
  let ?s = "(visited, stack, g)"
  from "3.prems" have pre: "dfs_pre E ?s"
    and gray: "\<forall>a\<in>visited - set stack. \<forall>p\<in>set (out_pod # rest). (a, p) \<in> E\<^sup>*"
    by simp_all
  show ?case
  proof (cases "out_pod \<in> visited")
    case True
    let ?s'' = "topological_sort_pod_loop rest ?s"
    from "3.IH"(3) [OF _ pre] True gray
    have post: "dfs_post E (set rest) ?s ?s''" and cl: "set rest \<subseteq> fst ?s''" by simp_all
    from post have "dfs_post E (set (out_pod # rest)) ?s ?s''"
      unfolding dfs_post_def by (metis (no_types, lifting) list.set_intros(2))
    moreover from post True have "out_pod \<in> fst ?s''" by (auto simp: dfs_post_def)
    ultimately show ?thesis using True cl by simp
  next
    case False
    let ?s' = "topological_sort_pod out_pod ?s"
    let ?s'' = "topological_sort_pod_loop rest ?s'"
    from "3.IH"(1) [OF _ pre] False gray
    have post1: "dfs_post E {out_pod} ?s ?s'" and in1: "out_pod \<in> fst ?s'" by simp_all
    from post1 obtain new1 where pre1: "dfs_pre E ?s'" and n1: "fst (snd ?s') = stack @ new1"
      "fst ?s' = visited \<union> set new1" "set new1 \<inter> visited = {}"
      "\<forall>x\<in>set new1. \<exists>p\<in>{out_pod}. (p, x) \<in> E\<^sup>*"
      by (auto simp: dfs_post_def)
    from pre have sub: "set stack \<subseteq> visited" by (simp add: dfs_pre_def)
    have gray1: "\<forall>a\<in>fst ?s' - set (fst (snd ?s')). \<forall>p\<in>set rest. (a, p) \<in> E\<^sup>*"
      using gray n1 sub by auto
    from "3.IH"(2) [OF _ pre1 gray1] False
    have post2: "dfs_post E (set rest) ?s' ?s''" and cl: "set rest \<subseteq> fst ?s''" by simp_all
    from post2 obtain new2 where pre2: "dfs_pre E ?s''" and n2: "fst (snd ?s'') = fst (snd ?s') @ new2"
      "fst ?s'' = fst ?s' \<union> set new2" "set new2 \<inter> fst ?s' = {}"
      "\<forall>x\<in>set new2. \<exists>p\<in>set rest. (p, x) \<in> E\<^sup>*"
      by (auto simp: dfs_post_def)
    have "fst (snd ?s'') = stack @ (new1 @ new2)" "fst ?s'' = visited \<union> set (new1 @ new2)"
      "set (new1 @ new2) \<inter> visited = {}"
      using n1 n2 by auto
    moreover have "\<forall>x\<in>set (new1 @ new2). \<exists>p\<in>set (out_pod # rest). (p, x) \<in> E\<^sup>*"
      using n1(4) n2(4) by auto
    ultimately have "dfs_post E (set (out_pod # rest)) ?s ?s''"
      using pre2 unfolding dfs_post_def by (metis fst_conv snd_conv)
    moreover have "out_pod \<in> fst ?s''" using in1 n2(2) by simp
    ultimately show ?thesis using False cl by simp
  qed
qed


lemma topological_sort_finished:
  "distinct (fst (topological_sort g))"
  "finished_ok (edge_rel g) (rev (fst (topological_sort g)))"
proof -
  let ?s = "({}, [], g) :: sort_state"
  let ?s' = "topological_sort_pod_loop (map fst (pods g)) ?s"
  have ts: "fst (topological_sort g) = rev (fst (snd ?s'))"
    by (simp add: topological_sort_def topological_sort_fold_loop case_prod_beta)
  have "dfs_pre (edge_rel g) ?s"
    by (simp add: dfs_pre_def finished_ok_Nil)
  from dfs_spec(2) [OF this, of "map fst (pods g)"]
  have "dfs_pre (edge_rel g) ?s'" by (simp add: dfs_post_def)
  then show "distinct (fst (topological_sort g))"
    "finished_ok (edge_rel g) (rev (fst (topological_sort g)))"
    by (simp_all add: ts dfs_pre_def)
qed

lemma position_lookup_sound:
  "position_lookup xs x = Some i \<Longrightarrow> i < length xs \<and> xs ! i = x"
  using position_fold_sound [of 0 xs Map.empty x i] by (simp add: position_lookup_step)

lemma inversion_gives_cycle:
  assumes e: "s \<in> set (out_edges (slot f g))"
    and f: "position_lookup (fst (topological_sort g)) f = Some i"
    and s: "position_lookup (fst (topological_sort g)) s = Some j"
    and ji: "j < i"
  shows "s \<noteq> f \<and> (s, f) \<in> (edge_rel g)\<^sup>+"
proof -
  let ?S = "fst (topological_sort g)"
  let ?st = "rev ?S"
  let ?n = "length ?S"
  from position_lookup_sound [OF f] have i: "i < ?n" "?S ! i = f" by simp_all
  from position_lookup_sound [OF s] have j: "j < ?n" "?S ! j = s" by simp_all
  have ne: "s \<noteq> f" using f s ji by auto
  have kf: "?st ! (?n - Suc i) = f" using i by (simp add: rev_nth)
  have ks: "?st ! (?n - Suc j) = s" using j by (simp add: rev_nth)
  have lt: "?n - Suc i < ?n - Suc j" "?n - Suc j < length ?st" "?n - Suc i < length ?st"
    using i j ji by simp_all
  have d: "distinct ?st" using topological_sort_finished(1) [of g] by simp
  have "(f, s) \<in> edge_rel g" using e by (simp add: edge_rel_def)
  with topological_sort_finished(2) [of g] lt(3) kf
  have "s \<in> set (take (Suc (?n - Suc i)) ?st) \<or> (s, f) \<in> (edge_rel g)\<^sup>+"
    unfolding finished_ok_def by blast
  moreover have "s \<notin> set (take (Suc (?n - Suc i)) ?st)"
  proof
    assume "s \<in> set (take (Suc (?n - Suc i)) ?st)"
    then obtain m where m: "m < Suc (?n - Suc i)" "m < length ?st" "?st ! m = s"
      by (auto simp: in_set_conv_nth)
    have "(?st ! m = ?st ! (?n - Suc j)) = (m = ?n - Suc j)"
      using d m(2) lt(2) by (rule nth_eq_iff_index_eq)
    with m(3) ks have "m = ?n - Suc j" by simp
    with m(1) lt(1) show False by simp
  qed
  ultimately show ?thesis using ne by simp
qed

text \<open>
  What the check computes: it answers \<open>True\<close> exactly when no two different nodes lie on
  a common cycle. Self-loops are not seen.
\<close>

lemma is_acyclic_iff:
  "fst (is_acyclic g) =
     Inr (\<not> (\<exists>u v. u \<noteq> v \<and> (u, v) \<in> (edge_rel g)\<^sup>+ \<and> (v, u) \<in> (edge_rel g)\<^sup>+))"
proof (cases "\<exists>u v. u \<noteq> v \<and> (u, v) \<in> (edge_rel g)\<^sup>+ \<and> (v, u) \<in> (edge_rel g)\<^sup>+")
  case True
  then show ?thesis using is_acyclic_detects_proper_cycle by auto
next
  case False
  let ?S = "fst (topological_sort g)"
  have "\<not> (\<exists>f\<in>set ?S. \<exists>s\<in>set (out_edges (slot f g)).
           the (position_lookup ?S s) < the (position_lookup ?S f))"
  proof (intro notI, elim bexE)
    fix f s assume fS: "f \<in> set ?S" and e: "s \<in> set (out_edges (slot f g))"
      and lt: "the (position_lookup ?S s) < the (position_lookup ?S f)"
    from topological_sort_closed(2) [OF fS] e have sS: "s \<in> set ?S" by auto
    from fS sS obtain i j where ij: "position_lookup ?S f = Some i" "position_lookup ?S s = Some j"
      using position_lookup_defined by blast
    with lt have "j < i" by simp
    from inversion_gives_cycle [OF e ij this]
    have "s \<noteq> f" "(s, f) \<in> (edge_rel g)\<^sup>+" by simp_all
    moreover have "(f, s) \<in> (edge_rel g)\<^sup>+" using e by (auto simp: edge_rel_def)
    ultimately show False using False by blast
  qed
  with False show ?thesis by (simp add: is_acyclic_result)
qed

text \<open>
  C1. Starting from an empty table, \<open>add_edge('A','B')\<close> followed by
  \<open>add_edge('B','C')\<close> gives the chain A \<rightarrow> B \<rightarrow> C, and \<open>is_acyclic()\<close> on it returns
  \<open>True\<close> (without raising and without changing the table).
\<close>

theorem is_acyclic_chain:
  "is_acyclic (add_edge ''B'' ''C'' (add_edge ''A'' ''B'' RoutingTableProto)) =
     (Inr True, add_edge ''B'' ''C'' (add_edge ''A'' ''B'' RoutingTableProto))"
  by code_simp

lemma is_acyclic_two_cycle:
  "fst (is_acyclic (add_edge ''B'' ''A'' (add_edge ''A'' ''B'' RoutingTableProto))) = Inr False"
  by code_simp

text \<open>
  C2. A table whose edges contain a directed cycle should make \<open>is_acyclic()\<close> return
  \<open>False\<close>, as its docstring says. The table built by the single call
  \<open>add_edge('A','A')\<close> has the cycle A \<rightarrow> A, yet the method returns \<open>True\<close>: the
  only edge has the same position at both ends and the comparison is strict. By
  \<open>is_acyclic_iff\<close> the method reports exactly the cycles through two different
  nodes, so the self-loop is the one case the check misses.
\<close>

theorem is_acyclic_self_loop:
  "''A'' \<in> set (out_edges (slot ''A'' (add_edge ''A'' ''A'' RoutingTableProto))) \<and>
   fst (is_acyclic (add_edge ''A'' ''A'' RoutingTableProto)) = Inr True"
  by code_simp

section \<open>Copies and next-hop snapshots\<close>

lemma RoutingTable_copy_eq:
  "self < length h \<Longrightarrow> RoutingTable_copy self h = (length h, h @ [h ! self])"
  by (simp add: RoutingTable_copy_def RoutingTable_from_def Let_def nth_append)

lemma RoutingTable_init_copy:
  "RoutingTable_init dec (GraphRoutingTable t) True h =
     (Inr (fst (RoutingTable_copy t h)), snd (RoutingTable_copy t h))"
  by (simp add: RoutingTable_init_def RoutingTable_copy_def RoutingTable_from_def Let_def)

lemma RoutingTable_init_share:
  "RoutingTable_init dec (GraphRoutingTable t) False h = (Inr t, h @ [RoutingTableProto])"
  by (simp add: RoutingTable_init_def RoutingTable_from_def Let_def)

lemma get_next_targets_loop_eq:
  "self < length h \<Longrightarrow>
     get_next_targets_loop self ns targets h =
       (targets @ [length h ..< length h + length ns],
        h @ map (\<lambda>n. active_pod_set n (h ! self)) ns)"
proof (induction ns arbitrary: targets h)
  case Nil
  show ?case by simp
next
  case (Cons n ns)
  let ?h' = "h @ [active_pod_set n (h ! self)]"
  have step: "update_self (length h) (active_pod_set n) (h @ [h ! self]) = ?h'"
    by (simp add: update_self_def)
  have self': "self < length ?h'" "?h' ! self = h ! self"
    using Cons.prems by (simp_all add: nth_append)
  have idx: "[length h ..< length h + length (n # ns)] =
             length h # [length ?h' ..< length ?h' + length ns]"
    by (subst upt_conv_Cons) simp_all
  have "get_next_targets_loop self (n # ns) targets h =
        get_next_targets_loop self ns (targets @ [length h]) ?h'"
    using Cons.prems by (simp add: RoutingTable_copy_eq step)
  also have "\<dots> = ((targets @ [length h]) @ [length ?h' ..< length ?h' + length ns],
                    ?h' @ map (\<lambda>n. active_pod_set n (?h' ! self)) ns)"
    by (rule Cons.IH [OF self'(1)])
  also have "\<dots> = (targets @ [length h ..< length h + length (n # ns)],
                    h @ map (\<lambda>n. active_pod_set n (h ! self)) (n # ns))"
    unfolding idx self'(2) by simp
  finally show ?case .
qed

lemma get_next_targets_eq:
  assumes "self < length h"
  shows "get_next_targets self h =
     (let g1 = pods_getitem (active_pod (h ! self)) (h ! self);
          edges = out_edges (slot (active_pod (h ! self)) (h ! self))
      in (Inr [length h ..< length h + length edges],
          h[self := g1] @ map (\<lambda>n. active_pod_set n g1) edges))"
proof -
  let ?g1 = "pods_getitem (active_pod (h ! self)) (h ! self)"
  let ?edges = "out_edges (slot (active_pod (h ! self)) (h ! self))"
  have a: "on_self self (\<lambda>g. get_out_edges (active_pod g) g) h = (?edges, h[self := ?g1])"
    by (simp add: on_self_def get_out_edges_def get_target_pod_def Let_def slot_pods_getitem)
  have b: "self < length (h[self := ?g1])" "h[self := ?g1] ! self = ?g1"
    using assms by simp_all
  show ?thesis
    using get_next_targets_loop_eq [OF b(1), of ?edges "[]"] b(2)
    by (simp add: get_next_targets_def a Let_def)
qed

text \<open>
  C5. When the active node of a table has the out-edge list \<open>[B, C]\<close>,
  \<open>get_next_targets()\<close> returns two newly allocated tables, in this order: a copy of the
  source with \<open>active_pod = B\<close> and a copy of the source with \<open>active_pod = C\<close>; the
  source and every other existing table are as before. When the out-edge list of the
  active node is empty the result is the empty list and nothing is raised.
\<close>

theorem get_next_targets_fan_out:
  assumes "self < length h"
  shows "(out_edges (slot (active_pod (h ! self)) (h ! self)) = [B, C] \<longrightarrow>
            get_next_targets self h =
              (Inr [length h, Suc (length h)],
               h @ [(h ! self)\<lparr>active_pod := B\<rparr>, (h ! self)\<lparr>active_pod := C\<rparr>])) \<and>
         (out_edges (slot (active_pod (h ! self)) (h ! self)) = [] \<longrightarrow>
            get_next_targets self h =
              (Inr [], h[self := pods_getitem (active_pod (h ! self)) (h ! self)]))"
proof (intro conjI impI)
  assume e: "out_edges (slot (active_pod (h ! self)) (h ! self)) = [B, C]"
  then have "pods_contains (active_pod (h ! self)) (h ! self)"
    by (intro out_edges_slot_present) simp
  then have g1: "pods_getitem (active_pod (h ! self)) (h ! self) = h ! self"
    by (rule pods_getitem_present)
  have "[length h ..< Suc (Suc (length h))] = [length h, Suc (length h)]"
    by (simp add: upt_conv_Cons)
  then show "get_next_targets self h =
      (Inr [length h, Suc (length h)],
       h @ [(h ! self)\<lparr>active_pod := B\<rparr>, (h ! self)\<lparr>active_pod := C\<rparr>])"
    using assms by (simp add: get_next_targets_eq e g1 Let_def active_pod_set_def)
next
  assume e: "out_edges (slot (active_pod (h ! self)) (h ! self)) = []"
  show "get_next_targets self h =
      (Inr [], h[self := pods_getitem (active_pod (h ! self)) (h ! self)])"
    using assms by (simp add: get_next_targets_eq e Let_def)
qed

definition fork_table :: routing_table_proto where
  "fork_table = active_pod_set ''A'' (add_edge ''A'' ''C'' (add_edge ''A'' ''B'' RoutingTableProto))"

theorem get_next_targets_fan_out_witness:
  "(0::nat) < length [fork_table] \<and>
   out_edges (slot (active_pod ([fork_table] ! 0)) ([fork_table] ! 0)) = [''B'', ''C''] \<and>
   get_next_targets 0 [fork_table] =
     (Inr [1, 2],
      [fork_table, fork_table\<lparr>active_pod := ''B''\<rparr>, fork_table\<lparr>active_pod := ''C''\<rparr>]) \<and>
   out_edges (slot (active_pod ([RoutingTableProto] ! 0)) ([RoutingTableProto] ! 0)) = [] \<and>
   get_next_targets 0 [RoutingTableProto] =
     (Inr [], [pods_getitem (active_pod RoutingTableProto) RoutingTableProto])"
proof -
  have l1: "(0::nat) < length [fork_table]" and l2: "(0::nat) < length [RoutingTableProto]"
    by simp_all
  have e1: "out_edges (slot (active_pod ([fork_table] ! 0)) ([fork_table] ! 0)) = [''B'', ''C'']"
    by code_simp
  have e2: "out_edges (slot (active_pod ([RoutingTableProto] ! 0)) ([RoutingTableProto] ! 0)) = []"
    by (simp add: slot_empty TargetPodProto_def)
  show ?thesis
    using l1 e1 e2
      get_next_targets_fan_out [OF l1, of "''B''" "''C''"]
      get_next_targets_fan_out [OF l2, of "''B''" "''C''"]
    by simp
qed

datatype mutation =
    SetActivePod string
  | AddEdge string string
  | AddPod string string int

fun mutate :: "mutation \<Rightarrow> ref \<Rightarrow> store \<Rightarrow> store" where
  "mutate (SetActivePod pod_name) self h = update_self self (active_pod_set pod_name) h"
| "mutate (AddEdge from_pod to_pod) self h = update_self self (add_edge from_pod to_pod) h"
| "mutate (AddPod pod_name hst p) self h = snd (on_self self (add_pod pod_name hst p) h)"

lemma mutate_frame:
  "length (mutate mu self h) = length h"
  "r \<noteq> self \<Longrightarrow> mutate mu self h ! r = h ! r"
  by (cases mu; simp add: update_self_def on_self_def case_prod_beta)+

lemma mutations_frame:
  "r \<noteq> self \<Longrightarrow> fold (\<lambda>mu. mutate mu self) mus h ! r = h ! r"
  by (induction mus arbitrary: h) (simp_all add: mutate_frame)

text \<open>
  Sharing, for contrast: without \<open>copy\<close> the new wrapper is the very body of \<open>T\<close>, so
  a change made through it is a change of \<open>T\<close>.
\<close>

lemma share_aliases:
  assumes "t < length h"
  shows "case RoutingTable_init dec (GraphRoutingTable t) False h of
           (res, h1) \<Rightarrow> res = Inr t \<and>
             active_pod (mutate (SetActivePod name) t h1 ! t) = name"
  using assms
  by (simp add: RoutingTable_init_share update_self_def active_pod_set_def nth_append)

text \<open>
  C6. Let \<open>S = RoutingTable(T, copy=True)\<close>. The constructor succeeds, \<open>S\<close> is a new
  body different from \<open>T\<close> with the contents of \<open>T\<close>, and \<open>T\<close> is as before. After that,
  any sequence of mutations of \<open>S\<close> (setting \<open>active_pod\<close>, \<open>add_edge\<close>, \<open>add_pod\<close>)
  leaves the whole body of \<open>T\<close> as it was, and any such sequence applied to \<open>T\<close> leaves
  the whole body of \<open>S\<close> as it was.
\<close>

theorem copy_isolation:
  assumes "t < length h"
  shows "case RoutingTable_init dec (GraphRoutingTable t) True h of
           (res, h1) \<Rightarrow>
             (\<exists>s. res = Inr s \<and> s \<noteq> t \<and> s < length h1 \<and> t < length h1 \<and>
                  h1 ! s = h ! t \<and> h1 ! t = h ! t \<and>
                  (\<forall>mus. fold (\<lambda>mu. mutate mu s) mus h1 ! t = h ! t \<and>
                         fold (\<lambda>mu. mutate mu t) mus h1 ! s = h ! t))"
proof -
  have "length h \<noteq> t" using assms by simp
  then have "\<forall>mus. fold (\<lambda>mu. mutate mu (length h)) mus (h @ [h ! t]) ! t = h ! t \<and>
                 fold (\<lambda>mu. mutate mu t) mus (h @ [h ! t]) ! length h = h ! t"
    using assms by (simp add: mutations_frame nth_append)
  then show ?thesis
    using assms by (simp add: RoutingTable_init_copy RoutingTable_copy_eq nth_append)
qed

definition failing_decoders :: "unit decoders" where
  "failing_decoders =
     \<lparr>ParseDict = (\<lambda>d g. Inl (OtherException ''ParseError'')),
      Parse = (\<lambda>s g. Inl (OtherException ''ParseError'')),
      ParseFromString = (\<lambda>b g. Inl (OtherException ''DecodeError''))\<rparr>"

theorem copy_isolation_witness:
  "(0::nat) < length [fork_table] \<and>
   (case RoutingTable_init failing_decoders (GraphRoutingTable 0) True [fork_table] of
      (res, h1) \<Rightarrow>
        (\<exists>s. res = Inr s \<and> s \<noteq> 0 \<and> s < length h1 \<and> 0 < length h1 \<and>
             h1 ! s = [fork_table] ! 0 \<and> h1 ! 0 = [fork_table] ! 0 \<and>
             (\<forall>mus. fold (\<lambda>mu. mutate mu s) mus h1 ! 0 = [fork_table] ! 0 \<and>
                    fold (\<lambda>mu. mutate mu 0) mus h1 ! s = [fork_table] ! 0)))"
proof -
  have l: "(0::nat) < length [fork_table]" by simp
  show ?thesis
    using l copy_isolation [OF l, of failing_decoders] by blast
qed

section \<open>Construction\<close>

text \<open>
  C10. Constructing from \<open>None\<close>, with either value of \<open>copy\<close>, raises nothing and
  yields a new table with no pods and the empty (unset) \<open>active_pod\<close>; the tables that
  existed before are untouched.
\<close>

theorem init_none:
  "RoutingTable_init dec GraphNone copy h = (Inr (length h), h @ [RoutingTableProto]) \<and>
   pods ((h @ [RoutingTableProto]) ! length h) = [] \<and>
   active_pod ((h @ [RoutingTableProto]) ! length h) = []"
  by (simp add: RoutingTable_init_def Let_def RoutingTableProto_def)

text \<open>
  C9. Constructing from an input of an unsupported type raises \<open>BadRequestType\<close> whose
  cause is the \<open>ValueError\<close> naming the type; when the decoder of a dict, a string or a
  bytes input raises, the constructor raises \<open>BadRequestType\<close> whose cause is that
  exception; and whatever the input, an error of the constructor is a \<open>BadRequestType\<close>.
\<close>

theorem init_bad_input:
  "fst (RoutingTable_init dec (GraphOther typename) copy h) =
     Inl (BadRequestType (ValueError (typename @ '' is not recognizable''))) \<and>
   (ParseDict dec d RoutingTableProto = Inl ex \<longrightarrow>
      fst (RoutingTable_init dec (GraphDict d) copy h) = Inl (BadRequestType ex)) \<and>
   (Parse dec s RoutingTableProto = Inl ex \<longrightarrow>
      fst (RoutingTable_init dec (GraphStr s) copy h) = Inl (BadRequestType ex)) \<and>
   (ParseFromString dec b RoutingTableProto = Inl ex \<longrightarrow>
      fst (RoutingTable_init dec (GraphBytes b) copy h) = Inl (BadRequestType ex)) \<and>
   (fst (RoutingTable_init dec graph copy h) = Inl e \<longrightarrow> (\<exists>cause. e = BadRequestType cause))"
proof -
  have "fst (RoutingTable_init dec graph copy h) = Inl e \<longrightarrow> (\<exists>cause. e = BadRequestType cause)"
    by (auto simp: RoutingTable_init_def Let_def split: sum.splits)
  then show ?thesis
    by (simp add: RoutingTable_init_def Let_def RoutingTable_parsed_def)
qed

theorem init_bad_input_witness:
  "ParseDict failing_decoders () RoutingTableProto = Inl (OtherException ''ParseError'') \<and>
   fst (RoutingTable_init failing_decoders (GraphDict ()) False []) =
     Inl (BadRequestType (OtherException ''ParseError'')) \<and>
   Parse failing_decoders ''{'' RoutingTableProto = Inl (OtherException ''ParseError'') \<and>
   fst (RoutingTable_init failing_decoders (GraphStr ''{'') False []) =
     Inl (BadRequestType (OtherException ''ParseError'')) \<and>
   ParseFromString failing_decoders [255] RoutingTableProto = Inl (OtherException ''DecodeError'') \<and>
   fst (RoutingTable_init failing_decoders (GraphBytes [255]) False []) =
     Inl (BadRequestType (OtherException ''DecodeError'')) \<and>
   fst (RoutingTable_init failing_decoders (GraphOther ''int'') False []) =
     Inl (BadRequestType (ValueError ''int is not recognizable''))"
proof -
  have d: "ParseDict failing_decoders () RoutingTableProto = Inl (OtherException ''ParseError'')"
    and s: "Parse failing_decoders ''{'' RoutingTableProto = Inl (OtherException ''ParseError'')"
    and b: "ParseFromString failing_decoders [255] RoutingTableProto = Inl (OtherException ''DecodeError'')"
    by (simp_all add: failing_decoders_def)
  show ?thesis
    using d s b
      init_bad_input [of failing_decoders "''int''" False "[]" "()" "OtherException ''ParseError''"
        "''{''" "[255]" "GraphOther ''int''"
        "BadRequestType (ValueError ''int is not recognizable'')"]
      init_bad_input [of failing_decoders "''int''" False "[]" "()" "OtherException ''DecodeError''"
        "''{''" "[255]" "GraphOther ''int''"
        "BadRequestType (ValueError ''int is not recognizable'')"]
    by simp
qed

section \<open>Fan-in counting\<close>





end
